theory Spec2Isabelle
  imports Main
begin

section \<open>The ordered container behind \<open>m_map\<close>\<close>

text \<open>
  \<open>std::map<K, V>\<close> is modelled as the list of its nodes in iteration order, that is
  by strictly increasing key. An iterator is the position of a node in that list, the
  position \<open>length xs\<close> being \<open>end()\<close> and position \<open>0\<close> being \<open>begin()\<close>.
\<close>

type_synonym ('k, 'v) std_map = "('k \<times> 'v) list"

definition wf_map :: "('k::linorder, 'v) std_map \<Rightarrow> bool" where
  "wf_map xs = sorted_wrt (<) (map fst xs)"

text \<open>\<open>lower_bound(k)\<close>: the first node whose key is not less than \<open>k\<close>.\<close>

definition lower_bound :: "'k::linorder \<Rightarrow> ('k, 'v) std_map \<Rightarrow> nat" where
  "lower_bound k xs = length (takeWhile (\<lambda>p. fst p < k) xs)"

text \<open>\<open>upper_bound(k)\<close>: the first node whose key is greater than \<open>k\<close>.\<close>

definition upper_bound :: "'k::linorder \<Rightarrow> ('k, 'v) std_map \<Rightarrow> nat" where
  "upper_bound k xs = length (takeWhile (\<lambda>p. fst p \<le> k) xs)"

text \<open>\<open>erase(first, last)\<close> with \<open>first\<close> at position \<open>i\<close> and \<open>last\<close> at position \<open>j\<close>: the nodes from \<open>i\<close> up to but not including \<open>j\<close> go.\<close>

definition erase_range :: "nat \<Rightarrow> nat \<Rightarrow> ('k, 'v) std_map \<Rightarrow> ('k, 'v) std_map" where
  "erase_range i j xs = take i xs @ drop j xs"

text \<open>
  The node an iterator refers to, \<open>None\<close> for \<open>end()\<close>. Iterators of \<open>std::map\<close> stay
  valid and keep their node while other nodes are erased or inserted, so \<open>assign\<close> reads
  \<open>itHigh\<close> through the node captured here.
\<close>

definition node_at :: "('k, 'v) std_map \<Rightarrow> nat \<Rightarrow> ('k \<times> 'v) option" where
  "node_at xs i = (if i < length xs then Some (xs ! i) else None)"

text \<open>\<open>m[k] = v\<close>: overwrite the node with key \<open>k\<close>, or insert one at its place.\<close>

fun subscript_set :: "'k::linorder \<Rightarrow> 'v \<Rightarrow> ('k, 'v) std_map \<Rightarrow> ('k, 'v) std_map" where
  "subscript_set k v [] = [(k, v)]"
| "subscript_set k v (p # ps) =
     (if fst p = k then (k, v) # ps
      else if k < fst p then (k, v) # p # ps
      else p # subscript_set k v ps)"

text \<open>
  The loop at the end of \<open>assign\<close>: \<open>it\<close> stands on the head of the list; when the next
  node carries the same value the next node is erased and \<open>it\<close> stays, otherwise \<open>it\<close>
  advances.
\<close>

fun canonicalize :: "('k, 'v) std_map \<Rightarrow> ('k, 'v) std_map" where
  "canonicalize [] = []"
| "canonicalize [p] = [p]"
| "canonicalize (p # q # ps) =
     (if snd p = snd q then canonicalize (p # ps) else p # canonicalize (q # ps))"

section \<open>The class \<open>interval_map\<close>\<close>

record ('k, 'v) interval_map =
  m_valBegin :: 'v
  m_map :: "('k, 'v) std_map"

definition new_map :: "'v \<Rightarrow> ('k, 'v) interval_map" where
  "new_map default_value = \<lparr>m_valBegin = default_value, m_map = []\<rparr>"

text \<open>
  The parameter \<open>val\<close> of \<open>assign\<close> is a forwarding reference \<open>V_forward&&\<close>, and the
  \<open>requires\<close> clause admits \<open>V const&\<close>: the caller may pass an object of its own
  (a temporary or a variable), or the reference that \<open>operator[]\<close> returns, which is
  bound to \<open>m_valBegin\<close> or to the mapped value of a node of \<open>m_map\<close>. A node is named
  by its key: \<open>Mapped k\<close> is bound to the node that carries the key \<open>k\<close> when \<open>assign\<close>
  is called. Forwarding an rvalue may move from the caller's object, which is no part of
  the map.
\<close>

datatype ('k, 'v) val_ref = Object 'v | ValBegin | Mapped 'k

text \<open>
  Reading through such a reference. A reference to a node that is no longer in the map
  dangles; reading it is undefined behaviour, which the model reports as an error value.
\<close>

datatype error = Dangling_reference

definition deref :: "('k, 'v) interval_map \<Rightarrow> ('k, 'v) val_ref \<Rightarrow> 'v option" where
  "deref m r =
     (case r of
        Object v \<Rightarrow> Some v
      | ValBegin \<Rightarrow> Some (m_valBegin m)
      | Mapped k \<Rightarrow> map_of (m_map m) k)"

text \<open>
  \<open>assign\<close>, branch by branch: the early return on \<open>keyBegin >= keyEnd\<close>; the two
  \<open>lower_bound\<close> searches; when \<open>itLow\<close> is not \<open>begin()\<close>, the comparison of
  \<open>itPrev->second\<close> with \<open>val\<close>, which reads \<open>val\<close> before anything is erased, and the
  return after erasing when they are equal; otherwise the erasure,
  \<open>m_map[keyBegin] = val\<close>, which reads \<open>val\<close> after the erasure (the nodes that are left
  are those of \<open>erased\<close>, so \<open>val\<close> is read in that state), the write
  \<open>m_map[keyEnd] = itHigh->second\<close> when \<open>itHigh\<close> is a node with a key greater than
  \<open>keyEnd\<close>, and the final loop over the whole map.

  \<open>keyBegin\<close> and \<open>keyEnd\<close> are \<open>K const&\<close> and are taken by value here: the class
  gives out references to mapped values only, so a key argument can refer into the map
  only where \<open>K\<close> and \<open>V\<close> are the same type, which the model leaves out.
\<close>

definition assign ::
  "('k::linorder, 'v) interval_map \<Rightarrow> 'k \<Rightarrow> 'k \<Rightarrow> ('k, 'v) val_ref \<Rightarrow>
   error + ('k, 'v) interval_map" where
  "assign m keyBegin keyEnd val =
     (if keyBegin \<ge> keyEnd then Inr m
      else
        let itLow = lower_bound keyBegin (m_map m);
            itHigh = lower_bound keyEnd (m_map m);
            high = node_at (m_map m) itHigh;
            erased = erase_range itLow itHigh (m_map m)
        in
          if itLow \<noteq> 0 \<and> deref m val = None then Inl Dangling_reference
          else if itLow \<noteq> 0 \<and> deref m val = Some (snd (m_map m ! (itLow - 1)))
          then Inr (m\<lparr>m_map := erased\<rparr>)
          else
            (case deref (m\<lparr>m_map := erased\<rparr>) val of
               None \<Rightarrow> Inl Dangling_reference
             | Some v \<Rightarrow>
                 let begun = subscript_set keyBegin v erased;
                     ended = (case high of
                                None \<Rightarrow> begun
                              | Some h \<Rightarrow>
                                  if fst h > keyEnd then subscript_set keyEnd (snd h) begun
                                  else begun)
                 in Inr (m\<lparr>m_map := canonicalize ended\<rparr>)))"

text \<open>
  Calls of \<open>assign\<close> one after the other, as \<open>IntervalMapTest\<close> makes them. Nothing is
  said about what follows undefined behaviour.
\<close>

fun assigns ::
  "('k::linorder, 'v) interval_map \<Rightarrow> ('k \<times> 'k \<times> ('k, 'v) val_ref) list \<Rightarrow>
   error + ('k, 'v) interval_map" where
  "assigns m [] = Inr m"
| "assigns m ((keyBegin, keyEnd, val) # calls) =
     (case assign m keyBegin keyEnd val of
        Inl e \<Rightarrow> Inl e
      | Inr m' \<Rightarrow> assigns m' calls)"

text \<open>\<open>operator[]\<close>, the lookup of the specification.\<close>

definition lookup :: "('k::linorder, 'v) interval_map \<Rightarrow> 'k \<Rightarrow> 'v" where
  "lookup m key =
     (let it = upper_bound key (m_map m)
      in if it = 0 then m_valBegin m else snd (m_map m ! (it - 1)))"

text \<open>
  \<open>operator[]\<close> returns \<open>V const&\<close>: \<open>subscript_ref\<close> is the object that reference is
  bound to, \<open>lookup\<close> the value read through it (lemma \<open>deref_subscript_ref\<close>).
\<close>

definition subscript_ref :: "('k::linorder, 'v) interval_map \<Rightarrow> 'k \<Rightarrow> ('k, 'v) val_ref" where
  "subscript_ref m key =
     (let it = upper_bound key (m_map m)
      in if it = 0 then ValBegin else Mapped (fst (m_map m ! (it - 1))))"

section \<open>The step function a breakpoint list denotes\<close>

text \<open>
  \<open>val_at d xs k\<close> walks the nodes from the left, starting from the value \<open>d\<close>, and
  stops at the first node whose key exceeds \<open>k\<close>. It is what \<open>lookup\<close> computes (lemma
  \<open>lookup_val_at\<close>) and is only used to reason about \<open>lookup\<close>.
\<close>

fun val_at :: "'v \<Rightarrow> ('k::linorder, 'v) std_map \<Rightarrow> 'k \<Rightarrow> 'v" where
  "val_at d [] k = d"
| "val_at d (p # ps) k = (if fst p \<le> k then val_at (snd p) ps k else d)"

text \<open>The node \<open>assign\<close> puts at \<open>keyEnd\<close>, as a list of no or one node.\<close>

definition end_node :: "'k::linorder \<Rightarrow> ('k, 'v) std_map \<Rightarrow> ('k, 'v) std_map" where
  "end_node keyEnd B =
     (case B of [] \<Rightarrow> [] | h # _ \<Rightarrow> if keyEnd < fst h then [(keyEnd, snd h)] else [])"

section \<open>Well-formed maps and the value at a key\<close>

lemma wf_map_Cons: "wf_map (p # ps) \<longleftrightarrow> (\<forall>q\<in>set ps. fst p < fst q) \<and> wf_map ps"
  by (auto simp: wf_map_def)

lemma wf_map_append:
  "wf_map (xs @ ys) \<longleftrightarrow> wf_map xs \<and> wf_map ys \<and> (\<forall>a\<in>set xs. \<forall>b\<in>set ys. fst a < fst b)"
  by (auto simp: wf_map_def sorted_wrt_append)

lemma wf_map_Nil: "wf_map []"
  by (simp add: wf_map_def)

lemma idx_val_at:
  "(let it = length (takeWhile (\<lambda>p. fst p \<le> k) xs)
    in if it = 0 then d else snd (xs ! (it - 1))) = val_at d xs k"
proof (induction xs arbitrary: d)
  case Nil
  show ?case by simp
next
  case (Cons p ps)
  show ?case
  proof (cases "fst p \<le> k")
    case False
    then show ?thesis by simp
  next
    case True
    show ?thesis
    proof (cases "length (takeWhile (\<lambda>p. fst p \<le> k) ps)")
      case 0
      with True Cons [of "snd p"] show ?thesis by simp
    next
      case (Suc n)
      with True Cons [of "snd p"] show ?thesis by simp
    qed
  qed
qed

lemma lookup_val_at: "lookup m k = val_at (m_valBegin m) (m_map m) k"
  unfolding lookup_def upper_bound_def by (rule idx_val_at)

lemma val_at_default: "\<forall>p\<in>set xs. k < fst p \<Longrightarrow> val_at d xs k = d"
  by (cases xs) auto

lemma val_at_last: "xs \<noteq> [] \<Longrightarrow> \<forall>p\<in>set xs. fst p \<le> k \<Longrightarrow> val_at d xs k = snd (last xs)"
  by (induction xs arbitrary: d) auto

lemma val_at_append:
  "\<forall>a\<in>set xs. \<forall>b\<in>set ys. fst a < fst b \<Longrightarrow>
   val_at d (xs @ ys) k = val_at (val_at d xs k) ys k"
proof (induction xs arbitrary: d)
  case Nil
  show ?case by simp
next
  case (Cons p ps)
  show ?case
  proof (cases "fst p \<le> k")
    case True
    with Cons show ?thesis by simp
  next
    case False
    with Cons.prems have "\<forall>b\<in>set ys. k < fst b" by fastforce
    with False show ?thesis by (simp add: val_at_default)
  qed
qed

lemma val_at_greatest:
  "wf_map xs \<Longrightarrow> p \<in> set xs \<Longrightarrow> fst p \<le> k \<Longrightarrow>
   \<forall>q\<in>set xs. fst q \<le> k \<longrightarrow> fst q \<le> fst p \<Longrightarrow> val_at d xs k = snd p"
proof (induction xs arbitrary: d)
  case Nil
  then show ?case by simp
next
  case (Cons a as)
  show ?case
  proof (cases "p = a")
    case True
    have "\<forall>q\<in>set as. k < fst q"
    proof
      fix q assume q: "q \<in> set as"
      with Cons.prems(1) have "fst a < fst q" by (simp add: wf_map_Cons)
      with Cons.prems(4) q True show "k < fst q" by fastforce
    qed
    with True Cons.prems(3) show ?thesis by (simp add: val_at_default)
  next
    case False
    with Cons.prems have p: "p \<in> set as" by simp
    with Cons.prems(1) have "fst a < fst p" by (simp add: wf_map_Cons)
    with Cons.prems(3) have "fst a \<le> k" by simp
    moreover have "val_at (snd a) as k = snd p"
      using Cons.IH [of "snd a"] Cons.prems p by (simp add: wf_map_Cons)
    ultimately show ?thesis by simp
  qed
qed

lemma set_canonicalize: "set (canonicalize xs) \<subseteq> set xs"
  by (induction xs rule: canonicalize.induct) auto

lemma wf_canonicalize: "wf_map xs \<Longrightarrow> wf_map (canonicalize xs)"
proof (induction xs rule: canonicalize.induct)
  case (3 p q ps)
  show ?case
  proof (cases "snd p = snd q")
    case True
    with 3 show ?thesis by (simp add: wf_map_Cons)
  next
    case False
    from 3 False have "wf_map (canonicalize (q # ps))" by (simp add: wf_map_Cons)
    moreover have "\<forall>r\<in>set (canonicalize (q # ps)). fst p < fst r"
      using set_canonicalize [of "q # ps"] "3.prems" by (auto simp: wf_map_Cons)
    ultimately show ?thesis using False by (simp add: wf_map_Cons)
  qed
qed simp_all

lemma val_at_canonicalize: "wf_map xs \<Longrightarrow> val_at d (canonicalize xs) k = val_at d xs k"
proof (induction xs arbitrary: d rule: canonicalize.induct)
  case (3 p q ps)
  show ?case
  proof (cases "snd p = snd q")
    case False
    with 3 show ?thesis by (simp add: wf_map_Cons)
  next
    case True
    from "3.prems" have wf: "wf_map (p # ps)" by (auto simp: wf_map_Cons)
    have "val_at d (canonicalize (p # q # ps)) k = val_at d (p # ps) k"
      using True "3.IH"(1) [OF True wf] by simp
    also have "\<dots> = val_at d (p # q # ps) k"
    proof (cases "fst q \<le> k")
      case True
      with \<open>snd p = snd q\<close> show ?thesis by simp
    next
      case False
      with "3.prems" have "\<forall>r\<in>set ps. k < fst r" by (fastforce simp: wf_map_Cons)
      with False show ?thesis by (simp add: val_at_default)
    qed
    finally show ?thesis .
  qed
qed simp_all

lemma wf_new_map: "wf_map (m_map (new_map d))"
  by (simp add: new_map_def wf_map_def)

section \<open>What \<open>assign\<close> stores\<close>

lemma take_lower_bound: "take (lower_bound k xs) xs = takeWhile (\<lambda>p. fst p < k) xs"
  by (simp add: lower_bound_def takeWhile_eq_take [symmetric])

lemma drop_lower_bound: "drop (lower_bound k xs) xs = dropWhile (\<lambda>p. fst p < k) xs"
  by (simp add: lower_bound_def dropWhile_eq_drop [symmetric])

lemma node_at_lower_bound:
  "node_at xs (lower_bound k xs) =
     (case dropWhile (\<lambda>p. fst p < k) xs of [] \<Rightarrow> None | h # _ \<Rightarrow> Some h)"
proof (cases "dropWhile (\<lambda>p. fst p < k) xs")
  case Nil
  then have "drop (lower_bound k xs) xs = []" by (simp add: drop_lower_bound)
  then have "\<not> lower_bound k xs < length xs" by simp
  then show ?thesis by (simp add: node_at_def Nil)
next
  case (Cons h t)
  then have d: "drop (lower_bound k xs) xs = h # t" by (simp add: drop_lower_bound)
  have lt: "lower_bound k xs < length xs"
  proof (rule ccontr)
    assume "\<not> lower_bound k xs < length xs"
    then have "drop (lower_bound k xs) xs = []" by simp
    with d show False by simp
  qed
  from lt have "hd (drop (lower_bound k xs) xs) = xs ! lower_bound k xs"
    by (rule hd_drop_conv_nth)
  with d have "xs ! lower_bound k xs = h" by simp
  with lt Cons show ?thesis by (simp add: node_at_def)
qed

lemma prev_lower_bound:
  "lower_bound k xs \<noteq> 0 \<Longrightarrow>
   xs ! (lower_bound k xs - 1) = last (takeWhile (\<lambda>p. fst p < k) xs)"
proof -
  assume "lower_bound k xs \<noteq> 0"
  then have ne: "takeWhile (\<lambda>p. fst p < k) xs \<noteq> []" by (simp add: lower_bound_def)
  then have "last (takeWhile (\<lambda>p. fst p < k) xs) =
      takeWhile (\<lambda>p. fst p < k) xs ! (lower_bound k xs - 1)"
    by (simp add: last_conv_nth lower_bound_def)
  also have "\<dots> = xs ! (lower_bound k xs - 1)"
    using ne by (intro takeWhile_nth) (simp add: lower_bound_def)
  finally show ?thesis by simp
qed

lemma lower_bound_0: "lower_bound k xs = 0 \<longleftrightarrow> takeWhile (\<lambda>p. fst p < k) xs = []"
  by (simp add: lower_bound_def)

lemma subscript_set_append:
  "\<forall>p\<in>set A. fst p < k \<Longrightarrow> subscript_set k v (A @ B) = A @ subscript_set k v B"
  by (induction A) auto

lemma subscript_set_front:
  "B = [] \<or> k < fst (hd B) \<Longrightarrow> subscript_set k v B = (k, v) # B"
  by (cases B) auto

lemma hd_dropWhile_ge:
  "dropWhile (\<lambda>p. fst p < k) xs = h # t \<Longrightarrow> k \<le> fst (h :: 'k::linorder \<times> 'v)"
  using hd_dropWhile [of "\<lambda>p. fst p < k" xs] by auto

lemma assign_merge:
  assumes "keyBegin < keyEnd"
    and "takeWhile (\<lambda>p. fst p < keyBegin) (m_map m) \<noteq> []"
    and "deref m val = Some (snd (last (takeWhile (\<lambda>p. fst p < keyBegin) (m_map m))))"
  shows "assign m keyBegin keyEnd val =
     Inr (m\<lparr>m_map := takeWhile (\<lambda>p. fst p < keyBegin) (m_map m) @
                     dropWhile (\<lambda>p. fst p < keyEnd) (m_map m)\<rparr>)"
proof -
  have nz: "lower_bound keyBegin (m_map m) \<noteq> 0"
    using assms(2) by (simp add: lower_bound_0)
  have c1: "(lower_bound keyBegin (m_map m) \<noteq> 0 \<and> deref m val = None) = False"
    using assms(3) by simp
  have c2: "(lower_bound keyBegin (m_map m) \<noteq> 0 \<and>
        deref m val = Some (snd (m_map m ! (lower_bound keyBegin (m_map m) - 1)))) = True"
    using nz assms(3) prev_lower_bound [OF nz] by simp
  have ge: "(keyEnd \<le> keyBegin) = False"
    using assms(1) by simp
  show ?thesis
    unfolding assign_def Let_def c1 c2 ge if_False if_True erase_range_def take_lower_bound
      drop_lower_bound
    by (rule refl)
qed

lemma assign_entry_dangling:
  assumes "keyBegin < keyEnd"
    and "takeWhile (\<lambda>p. fst p < keyBegin) (m_map m) \<noteq> []"
    and "deref m val = None"
  shows "assign m keyBegin keyEnd val = Inl Dangling_reference"
proof -
  have c1: "(lower_bound keyBegin (m_map m) \<noteq> 0 \<and> deref m val = None) = True"
    using assms(2,3) by (simp add: lower_bound_0)
  have ge: "(keyEnd \<le> keyBegin) = False"
    using assms(1) by simp
  show ?thesis
    unfolding assign_def Let_def c1 ge if_False if_True
    by (rule refl)
qed

text \<open>
  The branch that erases and then stores: it reads \<open>val\<close> in the map as the erasure
  left it.
\<close>

lemma assign_insert_or_dangling:
  assumes lt: "keyBegin < keyEnd"
    and nomerge: "takeWhile (\<lambda>p. fst p < keyBegin) (m_map m) = [] \<or>
         (\<exists>u. deref m val = Some u \<and>
              u \<noteq> snd (last (takeWhile (\<lambda>p. fst p < keyBegin) (m_map m))))"
  shows "assign m keyBegin keyEnd val =
     (case deref (m\<lparr>m_map := takeWhile (\<lambda>p. fst p < keyBegin) (m_map m) @
                             dropWhile (\<lambda>p. fst p < keyEnd) (m_map m)\<rparr>) val of
        None \<Rightarrow> Inl Dangling_reference
      | Some v \<Rightarrow>
          Inr (m\<lparr>m_map := canonicalize
            (takeWhile (\<lambda>p. fst p < keyBegin) (m_map m) @
             (keyBegin, v) # end_node keyEnd (dropWhile (\<lambda>p. fst p < keyEnd) (m_map m)) @
             dropWhile (\<lambda>p. fst p < keyEnd) (m_map m))\<rparr>))"
proof -
  define A where "A = takeWhile (\<lambda>p. fst p < keyBegin) (m_map m)"
  define B where "B = dropWhile (\<lambda>p. fst p < keyEnd) (m_map m)"
  have A: "\<forall>p\<in>set A. fst p < keyBegin"
    unfolding A_def by (auto dest: set_takeWhileD)
  with lt have A': "\<forall>p\<in>set A. fst p < keyEnd" by auto
  have B: "B = [] \<or> keyEnd \<le> fst (hd B)"
    unfolding B_def by (cases "dropWhile (\<lambda>p. fst p < keyEnd) (m_map m)") (auto dest: hd_dropWhile_ge)
  with lt have B': "B = [] \<or> keyBegin < fst (hd B)" by auto
  have begun: "subscript_set keyBegin v (A @ B) = A @ (keyBegin, v) # B" for v :: 'b
    using A B' by (simp add: subscript_set_append subscript_set_front)
  have ended: "(case (case B of [] \<Rightarrow> None | h # _ \<Rightarrow> Some h) of
                 None \<Rightarrow> A @ (keyBegin, v) # B
               | Some h \<Rightarrow> if fst h > keyEnd then subscript_set keyEnd (snd h) (A @ (keyBegin, v) # B)
                           else A @ (keyBegin, v) # B) =
               A @ (keyBegin, v) # end_node keyEnd B @ B" for v :: 'b
  proof (cases B)
    case Nil
    then show ?thesis by (simp add: end_node_def)
  next
    case (Cons h t)
    show ?thesis
    proof (cases "keyEnd < fst h")
      case False
      with Cons show ?thesis by (simp add: end_node_def)
    next
      case True
      have "subscript_set keyEnd (snd h) (A @ (keyBegin, v) # B) =
            A @ (keyBegin, v) # (keyEnd, snd h) # B"
        using A' lt True Cons by (auto simp: subscript_set_append)
      with True Cons show ?thesis by (simp add: end_node_def)
    qed
  qed
  have c1: "(lower_bound keyBegin (m_map m) \<noteq> 0 \<and> deref m val = None) = False"
    using nomerge by (auto simp: lower_bound_0)
  have c2: "(lower_bound keyBegin (m_map m) \<noteq> 0 \<and>
        deref m val = Some (snd (m_map m ! (lower_bound keyBegin (m_map m) - 1)))) = False"
    using nomerge prev_lower_bound [of keyBegin "m_map m"] by (auto simp: lower_bound_0)
  have ge: "(keyEnd \<le> keyBegin) = False"
    using lt by simp
  show ?thesis
    unfolding assign_def Let_def c1 c2 ge if_False erase_range_def take_lower_bound
      drop_lower_bound node_at_lower_bound A_def [symmetric] B_def [symmetric] begun ended
    by (rule refl)
qed

lemma takeWhile_wf: "wf_map xs \<Longrightarrow> takeWhile (\<lambda>p. fst p < k) xs = filter (\<lambda>p. fst p < k) xs"
proof (induction xs)
  case Nil
  show ?case by simp
next
  case (Cons p ps)
  show ?case
  proof (cases "fst p < k")
    case True
    with Cons show ?thesis by (simp add: wf_map_Cons)
  next
    case False
    with Cons.prems have "\<forall>q\<in>set ps. \<not> fst q < k" by (fastforce simp: wf_map_Cons)
    then have "filter (\<lambda>p. fst p < k) ps = []" by (simp add: filter_empty_conv)
    with False show ?thesis by simp
  qed
qed

lemma dropWhile_wf: "wf_map xs \<Longrightarrow> dropWhile (\<lambda>p. fst p < k) xs = filter (\<lambda>p. k \<le> fst p) xs"
proof (induction xs)
  case Nil
  show ?case by simp
next
  case (Cons p ps)
  show ?case
  proof (cases "fst p < k")
    case True
    with Cons show ?thesis by (simp add: wf_map_Cons)
  next
    case False
    with Cons.prems have "\<forall>q\<in>set ps. k \<le> fst q" by (fastforce simp: wf_map_Cons)
    then have "filter (\<lambda>p. k \<le> fst p) ps = ps" by (simp add: filter_id_conv)
    with False show ?thesis by simp
  qed
qed

lemma wf_filter: "wf_map xs \<Longrightarrow> wf_map (filter P xs)"
  by (induction xs) (auto simp: wf_map_Cons)

lemma fst_end_node: "p \<in> set (end_node keyEnd B) \<Longrightarrow> fst p = keyEnd"
  by (auto simp: end_node_def split: list.splits if_splits)

lemma wf_end_node: "wf_map B \<Longrightarrow> wf_map (end_node keyEnd B @ B)"
  by (cases B) (auto simp: end_node_def wf_map_Cons wf_map_Nil)

lemma wf_assembled:
  assumes wf: "wf_map xs" and lt: "keyBegin < keyEnd"
  shows "wf_map (filter (\<lambda>p. fst p < keyBegin) xs @
           (keyBegin, val) # end_node keyEnd (filter (\<lambda>p. keyEnd \<le> fst p) xs) @
           filter (\<lambda>p. keyEnd \<le> fst p) xs)"
proof -
  let ?B = "filter (\<lambda>p. keyEnd \<le> fst p) xs"
  have "wf_map (end_node keyEnd ?B @ ?B)"
    using wf by (intro wf_end_node wf_filter)
  moreover have "\<forall>q\<in>set (end_node keyEnd ?B @ ?B). keyBegin < fst q"
    using lt by (auto dest: fst_end_node)
  ultimately have "wf_map ((keyBegin, val) # end_node keyEnd ?B @ ?B)"
    by (simp add: wf_map_Cons)
  moreover have "wf_map (filter (\<lambda>p. fst p < keyBegin) xs)"
    using wf by (rule wf_filter)
  moreover have "\<forall>a\<in>set (filter (\<lambda>p. fst p < keyBegin) xs).
      \<forall>b\<in>set ((keyBegin, val) # end_node keyEnd ?B @ ?B). fst a < fst b"
    using lt by (auto dest: fst_end_node)
  ultimately show ?thesis by (simp only: wf_map_append simp_thms)
qed

text \<open>What \<open>assign\<close> returns on a well-formed map.\<close>

lemma val_at_prefix:
  "\<forall>a\<in>set A. \<forall>b\<in>set R. fst a < fst b \<Longrightarrow> \<forall>b\<in>set R. k < fst b \<Longrightarrow>
   val_at d (A @ R) k = val_at d A k"
  by (simp add: val_at_append val_at_default)

lemma last_greatest:
  "wf_map A \<Longrightarrow> p \<in> set A \<Longrightarrow> \<forall>q\<in>set A. fst q \<le> fst p \<Longrightarrow> last A = p"
proof (induction A)
  case Nil
  then show ?case by simp
next
  case (Cons a as)
  show ?case
  proof (cases "as = []")
    case True
    with Cons.prems show ?thesis by simp
  next
    case False
    have "p \<noteq> a"
    proof
      assume "p = a"
      from False obtain q where q: "q \<in> set as" by (cases as) auto
      with Cons.prems(1) have "fst a < fst q" by (simp add: wf_map_Cons)
      moreover from Cons.prems(3) q have "fst q \<le> fst p" by simp
      ultimately show False using \<open>p = a\<close> by simp
    qed
    with Cons.prems have "p \<in> set as" by simp
    with Cons have "last as = p" by (simp add: wf_map_Cons)
    with False show ?thesis by simp
  qed
qed

lemma filter_outside:
  "wf_map xs \<Longrightarrow> keyBegin \<le> keyEnd \<Longrightarrow>
   filter (\<lambda>p. fst p < keyBegin) xs @ filter (\<lambda>p. keyEnd \<le> fst p) xs =
   filter (\<lambda>p. \<not> (keyBegin \<le> fst p \<and> fst p < keyEnd)) xs"
proof (induction xs)
  case Nil
  show ?case by simp
next
  case (Cons p ps)
  show ?case
  proof (cases "fst p < keyBegin")
    case True
    with Cons show ?thesis by (auto simp: wf_map_Cons)
  next
    case False
    with Cons.prems have "\<forall>q\<in>set ps. \<not> fst q < keyBegin" by (fastforce simp: wf_map_Cons)
    with False have A: "filter (\<lambda>p. fst p < keyBegin) (p # ps) = []"
      by (simp add: filter_empty_conv)
    have "filter (\<lambda>p. keyEnd \<le> fst p) (p # ps) =
          filter (\<lambda>p. \<not> (keyBegin \<le> fst p \<and> fst p < keyEnd)) (p # ps)"
      using False \<open>\<forall>q\<in>set ps. \<not> fst q < keyBegin\<close>
      by (intro filter_cong) auto
    with A show ?thesis by simp
  qed
qed

lemma canonicalize_Cons: "\<exists>ys. canonicalize (p # ps) = p # ys"
  by (induction ps arbitrary: p) auto

lemma distinct_adj_canonicalize: "distinct_adj (map snd (canonicalize xs))"
proof (induction xs rule: canonicalize.induct)
  case (3 p q ps)
  show ?case
  proof (cases "snd p = snd q")
    case True
    with 3 show ?thesis by simp
  next
    case False
    obtain ys where ys: "canonicalize (q # ps) = q # ys"
      using canonicalize_Cons by blast
    with 3 False show ?thesis by simp
  qed
qed simp_all

lemma last_is_greatest: "wf_map A \<Longrightarrow> q \<in> set A \<Longrightarrow> fst q \<le> fst (last A)"
proof (induction A)
  case Nil
  then show ?case by simp
next
  case (Cons a as)
  show ?case
  proof (cases "as = []")
    case True
    with Cons.prems show ?thesis by simp
  next
    case False
    then have "last as \<in> set as" by (rule last_in_set)
    with Cons.prems(1) have "fst a < fst (last as)" by (simp add: wf_map_Cons)
    moreover have "q \<in> set as \<Longrightarrow> fst q \<le> fst (last as)"
      using Cons by (simp add: wf_map_Cons)
    ultimately show ?thesis using False Cons.prems(2) by auto
  qed
qed




lemma assign_merge_wf:
  assumes "wf_map (m_map m)" "keyBegin < keyEnd"
    and "filter (\<lambda>p. fst p < keyBegin) (m_map m) \<noteq> []"
    and "deref m val = Some (snd (last (filter (\<lambda>p. fst p < keyBegin) (m_map m))))"
  shows "assign m keyBegin keyEnd val =
     Inr (m\<lparr>m_map := filter (\<lambda>p. fst p < keyBegin) (m_map m) @
                     filter (\<lambda>p. keyEnd \<le> fst p) (m_map m)\<rparr>)"
  using assign_merge [of keyBegin keyEnd m val] assms
  by (simp add: takeWhile_wf dropWhile_wf)

lemma assign_entry_dangling_wf:
  assumes "wf_map (m_map m)" "keyBegin < keyEnd"
    and "filter (\<lambda>p. fst p < keyBegin) (m_map m) \<noteq> []"
    and "deref m val = None"
  shows "assign m keyBegin keyEnd val = Inl Dangling_reference"
  using assign_entry_dangling [of keyBegin keyEnd m val] assms
  by (simp add: takeWhile_wf)

lemma assign_insert_or_dangling_wf:
  assumes "wf_map (m_map m)" "keyBegin < keyEnd"
    and "filter (\<lambda>p. fst p < keyBegin) (m_map m) = [] \<or>
         (\<exists>u. deref m val = Some u \<and>
              u \<noteq> snd (last (filter (\<lambda>p. fst p < keyBegin) (m_map m))))"
  shows "assign m keyBegin keyEnd val =
     (case deref (m\<lparr>m_map := filter (\<lambda>p. fst p < keyBegin) (m_map m) @
                             filter (\<lambda>p. keyEnd \<le> fst p) (m_map m)\<rparr>) val of
        None \<Rightarrow> Inl Dangling_reference
      | Some v \<Rightarrow>
          Inr (m\<lparr>m_map := canonicalize
            (filter (\<lambda>p. fst p < keyBegin) (m_map m) @
             (keyBegin, v) # end_node keyEnd (filter (\<lambda>p. keyEnd \<le> fst p) (m_map m)) @
             filter (\<lambda>p. keyEnd \<le> fst p) (m_map m))\<rparr>))"
  using assign_insert_or_dangling [OF assms(2), of m val] assms(3)
  unfolding takeWhile_wf [OF assms(1)] dropWhile_wf [OF assms(1)]
  by simp

text \<open>The two shapes of a map that \<open>assign\<close> returns for a non-empty interval.\<close>

lemma assign_Inr_cases:
  assumes wf: "wf_map (m_map m)" and lt: "keyBegin < keyEnd"
    and res: "assign m keyBegin keyEnd val = Inr m'"
  obtains
    (merge) "filter (\<lambda>p. fst p < keyBegin) (m_map m) \<noteq> []"
      and "deref m val = Some (snd (last (filter (\<lambda>p. fst p < keyBegin) (m_map m))))"
      and "m' = m\<lparr>m_map := filter (\<lambda>p. fst p < keyBegin) (m_map m) @
                     filter (\<lambda>p. keyEnd \<le> fst p) (m_map m)\<rparr>"
  | (insert) v where
      "deref (m\<lparr>m_map := filter (\<lambda>p. fst p < keyBegin) (m_map m) @
                             filter (\<lambda>p. keyEnd \<le> fst p) (m_map m)\<rparr>) val = Some v"
      and "m' = m\<lparr>m_map := canonicalize
            (filter (\<lambda>p. fst p < keyBegin) (m_map m) @
             (keyBegin, v) # end_node keyEnd (filter (\<lambda>p. keyEnd \<le> fst p) (m_map m)) @
             filter (\<lambda>p. keyEnd \<le> fst p) (m_map m))\<rparr>"
proof -
  let ?A = "filter (\<lambda>p. fst p < keyBegin) (m_map m)"
  let ?B = "filter (\<lambda>p. keyEnd \<le> fst p) (m_map m)"
  show thesis
  proof (cases "?A \<noteq> [] \<and> deref m val = Some (snd (last ?A))")
    case True
    with res assign_merge_wf [OF wf lt, of val] have "m' = m\<lparr>m_map := ?A @ ?B\<rparr>" by simp
    with True merge show thesis by simp
  next
    case False
    have nomerge: "?A = [] \<or> (\<exists>u. deref m val = Some u \<and> u \<noteq> snd (last ?A))"
    proof (cases "?A = []")
      case True
      then show ?thesis by simp
    next
      case ne: False
      have "deref m val \<noteq> None"
      proof
        assume "deref m val = None"
        with assign_entry_dangling_wf [OF wf lt ne] res show False by simp
      qed
      with False ne show ?thesis by auto
    qed
    show thesis
    proof (cases "deref (m\<lparr>m_map := ?A @ ?B\<rparr>) val")
      case None
      with assign_insert_or_dangling_wf [OF wf lt nomerge] res show thesis by simp
    next
      case (Some v)
      with assign_insert_or_dangling_wf [OF wf lt nomerge] res
      have "m' = m\<lparr>m_map := canonicalize (?A @ (keyBegin, v) # end_node keyEnd ?B @ ?B)\<rparr>"
        by simp
      with Some insert show thesis by simp
    qed
  qed
qed

lemma assign_empty: "keyEnd \<le> keyBegin \<Longrightarrow> assign m keyBegin keyEnd val = Inr m"
  by (simp add: assign_def)

lemma wf_assign:
  assumes wf: "wf_map (m_map m)" and res: "assign m keyBegin keyEnd val = Inr m'"
  shows "wf_map (m_map m')"
proof (cases "keyBegin < keyEnd")
  case False
  then have "assign m keyBegin keyEnd val = Inr m" by (simp add: assign_empty)
  with wf res show ?thesis by simp
next
  case lt: True
  from wf lt res show ?thesis
  proof (cases rule: assign_Inr_cases)
    case merge
    have "wf_map (filter (\<lambda>p. fst p < keyBegin) (m_map m) @
              filter (\<lambda>p. keyEnd \<le> fst p) (m_map m))"
      using wf lt by (auto simp: wf_map_append wf_filter)
    with merge show ?thesis by simp
  next
    case (insert v)
    then show ?thesis
      using wf_canonicalize [OF wf_assembled [OF wf lt, of v]] by simp
  qed
qed

lemma wf_assigns:
  "wf_map (m_map m) \<Longrightarrow> assigns m calls = Inr m' \<Longrightarrow> wf_map (m_map m')"
proof (induction calls arbitrary: m)
  case Nil
  then show ?case by simp
next
  case (Cons c calls)
  obtain b e r where c: "c = (b, e, r)" by (cases c) auto
  show ?case
  proof (cases "assign m b e r")
    case (Inl err)
    with Cons.prems c show ?thesis by simp
  next
    case (Inr m1)
    with Cons.prems c have "assigns m1 calls = Inr m'" by simp
    moreover from Cons.prems(1) Inr have "wf_map (m_map m1)" by (rule wf_assign)
    ultimately show ?thesis by (rule Cons.IH [rotated])
  qed
qed

lemma valBegin_assign:
  "assign m keyBegin keyEnd val = Inr m' \<Longrightarrow> m_valBegin m' = m_valBegin m"
  by (auto simp: assign_def Let_def split: if_splits option.splits)

text \<open>References and the erasure.\<close>

lemma map_of_filter_key:
  "map_of (filter (\<lambda>p. P (fst p)) xs) k = (if P k then map_of xs k else None)"
  by (induction xs) auto

lemma deref_erased:
  assumes "wf_map (m_map m)" and "keyBegin \<le> keyEnd"
  shows "deref (m\<lparr>m_map := filter (\<lambda>p. fst p < keyBegin) (m_map m) @
                          filter (\<lambda>p. keyEnd \<le> fst p) (m_map m)\<rparr>) val =
         (case val of
            Mapped k \<Rightarrow> if keyBegin \<le> k \<and> k < keyEnd then None else map_of (m_map m) k
          | _ \<Rightarrow> deref m val)"
proof -
  have "filter (\<lambda>p. fst p < keyBegin) (m_map m) @ filter (\<lambda>p. keyEnd \<le> fst p) (m_map m) =
        filter (\<lambda>p. \<not> (keyBegin \<le> fst p \<and> fst p < keyEnd)) (m_map m)"
    using assms by (rule filter_outside)
  then show ?thesis
    by (cases val)
      (auto simp: deref_def map_of_filter_key [of "\<lambda>k. keyBegin \<le> k \<longrightarrow> \<not> k < keyEnd"])
qed

lemma wf_distinct: "wf_map xs \<Longrightarrow> distinct (map fst xs)"
  by (induction xs) (auto simp: wf_map_Cons)

lemma deref_subscript_ref:
  assumes "wf_map (m_map m)"
  shows "deref m (subscript_ref m k) = Some (lookup m k)"
proof (cases "upper_bound k (m_map m) = 0")
  case True
  then show ?thesis by (simp add: subscript_ref_def lookup_def deref_def)
next
  case False
  let ?i = "upper_bound k (m_map m) - 1"
  have "upper_bound k (m_map m) \<le> length (m_map m)"
    unfolding upper_bound_def by (rule length_takeWhile_le)
  with False have "?i < length (m_map m)" by simp
  then have "m_map m ! ?i \<in> set (m_map m)" by simp
  then have "(fst (m_map m ! ?i), snd (m_map m ! ?i)) \<in> set (m_map m)" by simp
  with wf_distinct [OF assms]
  have "map_of (m_map m) (fst (m_map m ! ?i)) = Some (snd (m_map m ! ?i))"
    by (simp only: map_of_eq_Some_iff)
  with False show ?thesis by (simp add: subscript_ref_def lookup_def deref_def Let_def)
qed

lemma deref_survives:
  assumes "wf_map (m_map m)" and "keyBegin \<le> keyEnd"
    and "\<forall>k'. val = Mapped k' \<longrightarrow> \<not> (keyBegin \<le> k' \<and> k' < keyEnd)"
  shows "deref (m\<lparr>m_map := filter (\<lambda>p. fst p < keyBegin) (m_map m) @
                          filter (\<lambda>p. keyEnd \<le> fst p) (m_map m)\<rparr>) val = deref m val"
  using assms(3) unfolding deref_erased [OF assms(1,2)]
  by (cases val) (auto simp: deref_def)

text \<open>
  With a \<open>val\<close> that outlives the erasure (an object of the caller, \<open>m_valBegin\<close>, or
  a node outside the interval), the keys of the interval get the value.
\<close>

lemma assign_inside:
  assumes wf: "wf_map (m_map m)" and lt: "keyBegin < keyEnd"
    and k: "keyBegin \<le> k" "k < keyEnd"
    and v: "deref m val = Some v"
    and surv: "\<forall>k'. val = Mapped k' \<longrightarrow> \<not> (keyBegin \<le> k' \<and> k' < keyEnd)"
  shows "\<exists>m'. assign m keyBegin keyEnd val = Inr m' \<and> lookup m' k = v"
proof -
  let ?A = "filter (\<lambda>p. fst p < keyBegin) (m_map m)"
  let ?B = "filter (\<lambda>p. keyEnd \<le> fst p) (m_map m)"
  let ?d = "m_valBegin m"
  have AB: "\<forall>a\<in>set ?A. \<forall>b\<in>set ?B. fst a < fst b" using lt by auto
  have Bk: "\<forall>b\<in>set ?B. k < fst b" using k by auto
  have v': "deref (m\<lparr>m_map := ?A @ ?B\<rparr>) val = Some v"
    using deref_survives [OF wf _ surv] lt v by simp
  show ?thesis
  proof (cases "?A \<noteq> [] \<and> snd (last ?A) = v")
    case True
    with v have eq: "assign m keyBegin keyEnd val = Inr (m\<lparr>m_map := ?A @ ?B\<rparr>)"
      by (simp add: assign_merge_wf [OF wf lt])
    have "lookup (m\<lparr>m_map := ?A @ ?B\<rparr>) k = val_at ?d (?A @ ?B) k"
      by (simp add: lookup_val_at)
    also have "\<dots> = val_at ?d ?A k" using AB Bk by (rule val_at_prefix)
    also have "\<dots> = snd (last ?A)" using True k by (intro val_at_last) auto
    finally show ?thesis using True eq by simp
  next
    case False
    let ?R = "(keyBegin, v) # end_node keyEnd ?B @ ?B"
    from False v have "?A = [] \<or> (\<exists>u. deref m val = Some u \<and> u \<noteq> snd (last ?A))"
      by auto
    from assign_insert_or_dangling_wf [OF wf lt this] v'
    have eq: "assign m keyBegin keyEnd val = Inr (m\<lparr>m_map := canonicalize (?A @ ?R)\<rparr>)"
      by simp
    have "lookup (m\<lparr>m_map := canonicalize (?A @ ?R)\<rparr>) k = val_at ?d (canonicalize (?A @ ?R)) k"
      by (simp add: lookup_val_at)
    also have "\<dots> = val_at ?d (?A @ ?R) k"
      using wf_assembled [OF wf lt] by (rule val_at_canonicalize)
    also have "\<dots> = val_at (val_at ?d ?A k) ?R k"
      using lt by (intro val_at_append) (auto dest: fst_end_node)
    also have "\<dots> = val_at v (end_node keyEnd ?B @ ?B) k"
      using k by simp
    also have "\<dots> = v"
      using k by (intro val_at_default) (auto dest: fst_end_node)
    finally show ?thesis using eq by simp
  qed
qed

text \<open>The keys to the left of \<open>keyBegin\<close> keep their value, whatever \<open>val\<close> is.\<close>

lemma assign_left:
  assumes wf: "wf_map (m_map m)" and k: "k < keyBegin"
    and res: "assign m keyBegin keyEnd val = Inr m'"
  shows "lookup m' k = lookup m k"
proof (cases "keyBegin < keyEnd")
  case False
  then have "assign m keyBegin keyEnd val = Inr m" by (simp add: assign_empty)
  with res show ?thesis by simp
next
  case lt: True
  let ?A = "filter (\<lambda>p. fst p < keyBegin) (m_map m)"
  let ?A' = "filter (\<lambda>p. keyBegin \<le> fst p) (m_map m)"
  let ?B = "filter (\<lambda>p. keyEnd \<le> fst p) (m_map m)"
  let ?d = "m_valBegin m"
  have "m_map m = takeWhile (\<lambda>p. fst p < keyBegin) (m_map m) @
      dropWhile (\<lambda>p. fst p < keyBegin) (m_map m)" by simp
  then have split: "m_map m = ?A @ ?A'" using wf by (simp add: takeWhile_wf dropWhile_wf)
  have "lookup m k = val_at ?d (?A @ ?A') k"
    using split by (simp add: lookup_val_at)
  also have "\<dots> = val_at ?d ?A k"
    using k by (intro val_at_prefix) auto
  finally have before: "lookup m k = val_at ?d ?A k" .
  from wf lt res show ?thesis
  proof (cases rule: assign_Inr_cases)
    case merge
    then have "lookup m' k = val_at ?d (?A @ ?B) k"
      by (simp add: lookup_val_at)
    also have "\<dots> = val_at ?d ?A k" using k lt by (intro val_at_prefix) auto
    finally show ?thesis using before by simp
  next
    case (insert v)
    let ?R = "(keyBegin, v) # end_node keyEnd ?B @ ?B"
    from insert have "lookup m' k = val_at ?d (canonicalize (?A @ ?R)) k"
      by (simp add: lookup_val_at)
    also have "\<dots> = val_at ?d (?A @ ?R) k"
      using wf_assembled [OF wf lt] by (rule val_at_canonicalize)
    also have "\<dots> = val_at ?d ?A k"
      using k lt by (intro val_at_prefix) (auto dest: fst_end_node)
    finally show ?thesis using before by simp
  qed
qed


text \<open>
  With a \<open>val\<close> bound to a node of the interval, the branch that erases and then stores
  reads a destroyed node.
\<close>

lemma assign_erased_reference:
  assumes wf: "wf_map (m_map m)" and lt: "keyBegin < keyEnd"
    and k': "keyBegin \<le> k'" "k' < keyEnd"
    and nomerge: "filter (\<lambda>p. fst p < keyBegin) (m_map m) = [] \<or>
         (\<exists>u. deref m (Mapped k') = Some u \<and>
              u \<noteq> snd (last (filter (\<lambda>p. fst p < keyBegin) (m_map m))))"
  shows "assign m keyBegin keyEnd (Mapped k') = Inl Dangling_reference"
proof -
  have "deref (m\<lparr>m_map := filter (\<lambda>p. fst p < keyBegin) (m_map m) @
                          filter (\<lambda>p. keyEnd \<le> fst p) (m_map m)\<rparr>) (Mapped k') = None"
    using deref_erased [OF wf, of keyBegin keyEnd "Mapped k'"] lt k' by simp
  with assign_insert_or_dangling_wf [OF wf lt nomerge] show ?thesis by simp
qed

section \<open>The properties of the specification\<close>

subsection \<open>C1: keys outside the interval\<close>

text \<open>
  Claim C1: for every map, every \<open>begin < end\<close>, every value \<open>v\<close> and every key \<open>k\<close> with
  \<open>k < begin\<close> or \<open>k \<ge> end\<close>, \<open>lookup(k)\<close> after \<open>assign(begin, end, v)\<close> equals
  \<open>lookup(k)\<close> before the call.

  The code keeps this to the left of \<open>begin\<close> (lemma \<open>assign_left\<close>) and breaks it at
  \<open>end\<close>: on the fresh map with default \<open>'A'\<close>, \<open>lookup(3)\<close> is \<open>'A'\<close> before
  \<open>assign(1, 3, 'B')\<close> and \<open>'B'\<close> after it, because no node is put at \<open>keyEnd\<close> when
  \<open>itHigh\<close> is \<open>end()\<close>.
\<close>

theorem assign_end_key_changed:
  "lookup (new_map (CHR ''A'')) (3::int) = CHR ''A'' \<and>
   assign (new_map (CHR ''A'')) (1::int) 3 (Object (CHR ''B'')) =
     Inr \<lparr>m_valBegin = CHR ''A'', m_map = [(1, CHR ''B'')]\<rparr> \<and>
   lookup \<lparr>m_valBegin = CHR ''A'', m_map = [(1::int, CHR ''B'')]\<rparr> 3 = CHR ''B''"
  by code_simp

subsection \<open>C2: keys inside the interval\<close>

text \<open>
  Claim C2: for every map, every \<open>begin < end\<close>, every value \<open>v\<close> and every key \<open>k\<close> with
  \<open>begin \<le> k < end\<close>, \<open>lookup(k)\<close> returns \<open>v\<close> after \<open>assign(begin, end, v)\<close>.

  The code does this when \<open>val\<close> outlives the erasure (lemma \<open>assign_inside\<close>), and on the
  branch that merges with the previous node, which reads \<open>val\<close> before it erases. The
  other branch erases first and reads \<open>val\<close> afterwards, so a \<open>val\<close> bound to a node of
  the interval is read after that node is destroyed (lemma \<open>assign_erased_reference\<close>).
  With \<open>V = std::string\<close> and default \<open>"A"\<close>, \<open>assign(5, 20, std::string("B"))\<close> and
  \<open>assign(20, 30, std::string("D"))\<close> store \<open>(5, "B"), (20, "D")\<close>; \<open>imap[5]\<close> is then
  the mapped value of the node 5, and \<open>assign(1, 10, imap[5])\<close> erases that node and
  reads it.
\<close>

theorem assign_reads_erased_node:
  "assigns (new_map ''A'') [(5::int, 20, Object ''B''), (20, 30, Object ''D'')] =
     Inr \<lparr>m_valBegin = ''A'', m_map = [(5, ''B''), (20, ''D'')]\<rparr> \<and>
   subscript_ref \<lparr>m_valBegin = ''A'', m_map = [(5::int, ''B''), (20, ''D'')]\<rparr> 5 = Mapped 5 \<and>
   lookup \<lparr>m_valBegin = ''A'', m_map = [(5::int, ''B''), (20, ''D'')]\<rparr> 5 = ''B'' \<and>
   assign \<lparr>m_valBegin = ''A'', m_map = [(5::int, ''B''), (20, ''D'')]\<rparr> 1 10
     (subscript_ref \<lparr>m_valBegin = ''A'', m_map = [(5::int, ''B''), (20, ''D'')]\<rparr> 5) =
     Inl Dangling_reference"
  by code_simp

subsection \<open>C3: the scenario of \<open>IntervalMapTest\<close>\<close>

text \<open>
  Claim C3: on a fresh map with \<open>K = int\<close>, \<open>V = char\<close> and default \<open>'A'\<close>, after
  \<open>assign(1, 3, 'B')\<close> and \<open>assign(5, 7, 'C')\<close>, lookup returns \<open>'A'\<close> at 0, \<open>'B'\<close> at 1
  and 2, \<open>'A'\<close> at 3 and 4, \<open>'C'\<close> at 5 and 6, and \<open>'A'\<close> at 7.

  The code returns \<open>'B'\<close> at the keys 3 and 4 and \<open>'C'\<close> at the key 7: the two calls
  leave the nodes \<open>(1, 'B'), (5, 'C')\<close>, and the eight lookups at the keys 0 to 7 give
  \<open>A B B B B C C C\<close>.
\<close>

theorem test_scenario_lookups:
  "assigns (new_map (CHR ''A''))
     [(1::int, 3, Object (CHR ''B'')), (5, 7, Object (CHR ''C''))] =
     Inr \<lparr>m_valBegin = CHR ''A'', m_map = [(1, CHR ''B''), (5, CHR ''C'')]\<rparr> \<and>
   map (lookup \<lparr>m_valBegin = CHR ''A'', m_map = [(1::int, CHR ''B''), (5, CHR ''C'')]\<rparr>)
     [0, 1, 2, 3, 4, 5, 6, 7] =
   [CHR ''A'', CHR ''B'', CHR ''B'', CHR ''B'', CHR ''B'', CHR ''C'', CHR ''C'', CHR ''C'']"
  by code_simp

subsection \<open>C4: canonical form\<close>

text \<open>
  Claim C4: after any finite sequence of \<open>assign\<close> calls on a fresh map, no two consecutive
  stored breakpoints carry equal values, and the value of the first stored breakpoint
  differs from the default value.

  The final loop of \<open>assign\<close> does remove every node that repeats the value of its
  predecessor (lemma \<open>distinct_adj_canonicalize\<close>), but the branch that merges with the
  previous node returns before that loop: from the fresh map with default \<open>'A'\<close>, the calls
  \<open>assign(1, 2, 'B')\<close>, \<open>assign(3, 4, 'C')\<close>, \<open>assign(5, 6, 'B')\<close>, \<open>assign(2, 4, 'B')\<close>
  leave the nodes \<open>(1, 'B'), (5, 'B')\<close>. Nor is the first node ever compared with
  \<open>m_valBegin\<close>: \<open>assign(1, 3, 'A')\<close> on the fresh map stores \<open>(1, 'A')\<close>.
\<close>

theorem merge_leaves_equal_neighbours:
  "assigns (new_map (CHR ''A''))
     [(1::int, 2, Object (CHR ''B'')), (3, 4, Object (CHR ''C'')),
      (5, 6, Object (CHR ''B'')), (2, 4, Object (CHR ''B''))] =
     Inr \<lparr>m_valBegin = CHR ''A'', m_map = [(1, CHR ''B''), (5, CHR ''B'')]\<rparr> \<and>
   assign (new_map (CHR ''A'')) (1::int) 3 (Object (CHR ''A'')) =
     Inr \<lparr>m_valBegin = CHR ''A'', m_map = [(1, CHR ''A'')]\<rparr>"
  by code_simp

subsection \<open>C5: what \<open>lookup\<close> returns\<close>

text \<open>
  Claim C5: for every map and every key \<open>k\<close>, \<open>lookup(k)\<close> returns the value of the stored
  breakpoint with the greatest key less than or equal to \<open>k\<close>, and the default value given
  at construction when no stored breakpoint has a key less than or equal to \<open>k\<close> (also when
  there is no breakpoint at all); lookup modifies nothing.

  \<open>operator[]\<close> is a \<open>const\<close> member that only reads: \<open>lookup\<close> is a function of the
  map that yields a value and no new map.
\<close>

theorem lookup_greatest_breakpoint:
  assumes "wf_map (m_map m)"
  shows "((\<forall>p\<in>set (m_map m). k < fst p) \<longrightarrow> lookup m k = m_valBegin m) \<and>
         (\<forall>p\<in>set (m_map m).
            fst p \<le> k \<and> (\<forall>q\<in>set (m_map m). fst q \<le> k \<longrightarrow> fst q \<le> fst p) \<longrightarrow>
            lookup m k = snd p)"
  using assms by (auto simp: lookup_val_at val_at_default val_at_greatest)

theorem lookup_greatest_breakpoint_witness:
  "wf_map (m_map \<lparr>m_valBegin = CHR ''A'', m_map = [(1::int, CHR ''B''), (5, CHR ''C'')]\<rparr>) \<and>
   lookup \<lparr>m_valBegin = CHR ''A'', m_map = [(1::int, CHR ''B''), (5, CHR ''C'')]\<rparr> 0 = CHR ''A'' \<and>
   lookup \<lparr>m_valBegin = CHR ''A'', m_map = [(1::int, CHR ''B''), (5, CHR ''C'')]\<rparr> 3 = CHR ''B''"
proof -
  let ?m = "\<lparr>m_valBegin = CHR ''A'', m_map = [(1::int, CHR ''B''), (5, CHR ''C'')]\<rparr>"
  have h: "wf_map (m_map ?m)"
    by (simp add: wf_map_def)
  from lookup_greatest_breakpoint [OF h, of 0] lookup_greatest_breakpoint [OF h, of 3] h
  show ?thesis by simp
qed

subsection \<open>C6: the breakpoint at \<open>keyEnd\<close>\<close>

text \<open>
  Claim C6: for every map, every \<open>begin < end\<close> and every value \<open>v\<close>,
  \<open>assign(begin, end, v)\<close> inserts a breakpoint at \<open>end\<close> whose value is what lookup
  returned for \<open>end\<close> before the call, unless that value equals \<open>v\<close>, in which case no
  breakpoint at \<open>end\<close> is inserted.

  The code inserts a node at \<open>keyEnd\<close> only when a node with a greater key exists, and
  gives it the value of that node. On the fresh map with default \<open>'A'\<close>, \<open>lookup(3)\<close> is
  \<open>'A'\<close>, and \<open>assign(1, 3, 'B')\<close> leaves the single node \<open>(1, 'B')\<close>. After
  \<open>assign(5, 6, 'C')\<close> on the fresh map \<open>lookup(3)\<close> is still \<open>'A'\<close>, and
  \<open>assign(1, 3, 'B')\<close> then stores \<open>(3, 'C')\<close>.
\<close>

theorem no_breakpoint_at_end:
  "lookup (new_map (CHR ''A'')) (3::int) = CHR ''A'' \<and>
   assign (new_map (CHR ''A'')) (1::int) 3 (Object (CHR ''B'')) =
     Inr \<lparr>m_valBegin = CHR ''A'', m_map = [(1, CHR ''B'')]\<rparr> \<and>
   assign (new_map (CHR ''A'')) (5::int) 6 (Object (CHR ''C'')) =
     Inr \<lparr>m_valBegin = CHR ''A'', m_map = [(5, CHR ''C'')]\<rparr> \<and>
   lookup \<lparr>m_valBegin = CHR ''A'', m_map = [(5::int, CHR ''C'')]\<rparr> 3 = CHR ''A'' \<and>
   assign \<lparr>m_valBegin = CHR ''A'', m_map = [(5::int, CHR ''C'')]\<rparr> 1 3 (Object (CHR ''B'')) =
     Inr \<lparr>m_valBegin = CHR ''A'', m_map = [(1, CHR ''B''), (3, CHR ''C'')]\<rparr>"
  by code_simp

subsection \<open>C7: the empty interval\<close>

text \<open>
  Claim C7: for every map, every value \<open>v\<close> and every \<open>begin \<ge> end\<close>, the call
  \<open>assign(begin, end, v)\<close> leaves the map unchanged: \<open>lookup(k)\<close> returns the same value
  as before for every key \<open>k\<close>, and the call is not an error: it returns the map it
  was given. \<open>assign\<close> returns before it reads \<open>val\<close>, so this holds for every \<open>val\<close>,
  whatever it is bound to.
\<close>

theorem assign_empty_interval:
  assumes "keyEnd \<le> keyBegin"
  shows "assign m keyBegin keyEnd val = Inr m \<and>
         (\<forall>k. (case assign m keyBegin keyEnd val of
                 Inl e \<Rightarrow> None
               | Inr m' \<Rightarrow> Some (lookup m' k)) = Some (lookup m k))"
proof -
  from assms have "assign m keyBegin keyEnd val = Inr m" by (rule assign_empty)
  then show ?thesis by simp
qed

theorem assign_empty_interval_witness:
  "(1::int) \<le> 3 \<and>
   assign (new_map (CHR ''A'')) (3::int) 1 (Object (CHR ''X'')) = Inr (new_map (CHR ''A'')) \<and>
   (\<forall>k. (case assign (new_map (CHR ''A'')) (3::int) 1 (Object (CHR ''X'')) of
           Inl e \<Rightarrow> None
         | Inr m' \<Rightarrow> Some (lookup m' k)) = Some (lookup (new_map (CHR ''A'')) k))"
proof -
  have h: "(1::int) \<le> 3" by simp
  from assign_empty_interval [OF h, of "new_map (CHR ''A'')" "Object (CHR ''X'')"] h
  show ?thesis by blast
qed

subsection \<open>C8: assigning twice\<close>

text \<open>
  Claim C8: for every map and every \<open>b\<close>, \<open>e\<close>, \<open>v\<close>, calling \<open>assign(b, e, v)\<close> twice in
  a row yields the same default value and the same stored breakpoints as calling it once.

  The code does not: from the fresh map with default \<open>'A'\<close>, \<open>assign(5, 6, 'B')\<close> and
  \<open>assign(7, 8, 'C')\<close> store \<open>(5, 'B'), (7, 'C')\<close>; one call \<open>assign(1, 3, 'B')\<close> then
  leaves \<open>(1, 'B'), (7, 'C')\<close>, and a second one leaves \<open>(1, 'B'), (3, 'C')\<close>.
\<close>

theorem assign_twice_differs:
  "assigns (new_map (CHR ''A''))
     [(5::int, 6, Object (CHR ''B'')), (7, 8, Object (CHR ''C''))] =
     Inr \<lparr>m_valBegin = CHR ''A'', m_map = [(5, CHR ''B''), (7, CHR ''C'')]\<rparr> \<and>
   assigns (new_map (CHR ''A''))
     [(5::int, 6, Object (CHR ''B'')), (7, 8, Object (CHR ''C'')),
      (1, 3, Object (CHR ''B''))] =
     Inr \<lparr>m_valBegin = CHR ''A'', m_map = [(1, CHR ''B''), (7, CHR ''C'')]\<rparr> \<and>
   assigns (new_map (CHR ''A''))
     [(5::int, 6, Object (CHR ''B'')), (7, 8, Object (CHR ''C'')),
      (1, 3, Object (CHR ''B'')), (1, 3, Object (CHR ''B''))] =
     Inr \<lparr>m_valBegin = CHR ''A'', m_map = [(1, CHR ''B''), (3, CHR ''C'')]\<rparr>"
  by code_simp

subsection \<open>C9: merging with the breakpoint before \<open>keyBegin\<close>\<close>

text \<open>
  Claim C9: for every map in which some stored breakpoint has a key strictly less than
  \<open>keyBegin\<close> and the greatest such breakpoint carries \<open>val\<close>, the call
  \<open>assign(keyBegin, keyEnd, val)\<close> with \<open>keyBegin < keyEnd\<close> removes every stored breakpoint
  with key in \<open>[keyBegin, keyEnd)\<close> and inserts no breakpoint at all, in particular none
  at \<open>keyEnd\<close>, so that \<open>val\<close> extends to the right up to the first remaining breakpoint
  with key \<open>\<ge> keyEnd\<close>, if there is one.

  \<open>val\<close> is any reference that is valid when the call is made: this branch reads it
  before it erases, so it may even be bound to a node of the interval.
\<close>

theorem assign_merge_left:
  assumes wf: "wf_map (m_map m)" and lt: "keyBegin < keyEnd"
    and p: "p \<in> set (m_map m)" "fst p < keyBegin" "deref m val = Some (snd p)"
    and greatest: "\<forall>q\<in>set (m_map m). fst q < keyBegin \<longrightarrow> fst q \<le> fst p"
  shows "\<exists>m'. assign m keyBegin keyEnd val = Inr m' \<and>
           m_map m' = filter (\<lambda>q. \<not> (keyBegin \<le> fst q \<and> fst q < keyEnd)) (m_map m) \<and>
           m_valBegin m' = m_valBegin m \<and>
           (\<forall>k. keyBegin \<le> k \<and> (\<forall>q\<in>set (m_map m). keyEnd \<le> fst q \<longrightarrow> k < fst q) \<longrightarrow>
                lookup m' k = snd p)"
proof -
  let ?A = "filter (\<lambda>p. fst p < keyBegin) (m_map m)"
  let ?B = "filter (\<lambda>p. keyEnd \<le> fst p) (m_map m)"
  let ?m' = "m\<lparr>m_map := ?A @ ?B\<rparr>"
  have pA: "p \<in> set ?A" using p by simp
  have ne: "?A \<noteq> []" using p by (auto simp: filter_empty_conv)
  have last: "last ?A = p"
    using wf_filter [OF wf] pA greatest by (intro last_greatest) auto
  with p ne have eq: "assign m keyBegin keyEnd val = Inr ?m'"
    by (simp add: assign_merge_wf [OF wf lt])
  have 1: "m_map ?m' = filter (\<lambda>q. \<not> (keyBegin \<le> fst q \<and> fst q < keyEnd)) (m_map m)"
    using lt filter_outside [OF wf, of keyBegin keyEnd] by simp
  have 3: "lookup ?m' k = snd p"
    if k: "keyBegin \<le> k" "\<forall>q\<in>set (m_map m). keyEnd \<le> fst q \<longrightarrow> k < fst q" for k
  proof -
    have "lookup ?m' k = val_at (m_valBegin m) (?A @ ?B) k"
      by (simp add: lookup_val_at)
    also have "\<dots> = val_at (m_valBegin m) ?A k"
      using lt k by (intro val_at_prefix) auto
    also have "\<dots> = snd (last ?A)"
      using ne k by (intro val_at_last) auto
    finally show ?thesis using last by simp
  qed
  from eq 1 3 show ?thesis by (intro exI [of _ ?m']) simp
qed

theorem assign_merge_left_witness:
  "wf_map (m_map \<lparr>m_valBegin = CHR ''A'',
       m_map = [(1::int, CHR ''B''), (3, CHR ''C''), (5, CHR ''B'')]\<rparr>) \<and>
   (2::int) < 4 \<and>
   deref \<lparr>m_valBegin = CHR ''A'',
       m_map = [(1::int, CHR ''B''), (3, CHR ''C''), (5, CHR ''B'')]\<rparr> (Mapped 1) =
     Some (CHR ''B'') \<and>
   (\<exists>m'. assign \<lparr>m_valBegin = CHR ''A'',
       m_map = [(1::int, CHR ''B''), (3, CHR ''C''), (5, CHR ''B'')]\<rparr> 2 4 (Mapped 1) = Inr m' \<and>
     m_map m' = [(1, CHR ''B''), (5, CHR ''B'')] \<and>
     m_valBegin m' = CHR ''A'' \<and>
     lookup m' 4 = CHR ''B'')"
proof -
  let ?m = "\<lparr>m_valBegin = CHR ''A'',
       m_map = [(1::int, CHR ''B''), (3, CHR ''C''), (5, CHR ''B'')]\<rparr>"
  have h1: "wf_map (m_map ?m)" by (simp add: wf_map_def)
  have h2: "(2::int) < 4" by simp
  have h3: "(1::int, CHR ''B'') \<in> set (m_map ?m)" by simp
  have h4: "fst (1::int, CHR ''B'') < 2" by simp
  have h5: "deref ?m (Mapped 1) = Some (snd (1::int, CHR ''B''))" by (simp add: deref_def)
  have h6: "\<forall>q\<in>set (m_map ?m). fst q < 2 \<longrightarrow> fst q \<le> fst (1::int, CHR ''B'')" by simp
  from assign_merge_left [OF h1 h2 h3 h4 h5 h6] obtain m' where
    "assign ?m 2 4 (Mapped 1) = Inr m'"
    "m_map m' = filter (\<lambda>q. \<not> (2 \<le> fst q \<and> fst q < 4)) (m_map ?m)"
    "m_valBegin m' = m_valBegin ?m"
    "\<forall>k. 2 \<le> k \<and> (\<forall>q\<in>set (m_map ?m). 4 \<le> fst q \<longrightarrow> k < fst q) \<longrightarrow>
         lookup m' k = snd (1::int, CHR ''B'')"
    by blast
  moreover from this(4) have "lookup m' 4 = CHR ''B''" by simp
  ultimately show ?thesis using h1 h5 by (intro conjI exI [of _ m']) simp_all
qed

subsection \<open>C10: no breakpoint at or after \<open>keyEnd\<close>\<close>




end
